theory Spec2Isabelle
  imports Main "HOL-Library.Signed_Division" "HOL-Library.Multiset"
begin

section \<open>The sequential operations of package going\<close>

text \<open>
  A Go slice that is local to one call is modelled by the list of its elements. An
  index produced by \<open>range\<close> is a \<open>nat\<close>; where the source returns it as a Go \<open>int\<close> (in
  \<open>IndexOf\<close>, which also returns \<open>-1\<close>) it is an \<open>int\<close>. A Go \<open>error\<close> value is
  \<open>error option\<close>, with \<open>None\<close> for \<open>nil\<close>. A function that can panic at run time
  returns an \<open>option\<close>, with \<open>None\<close> for the panic.
\<close>

datatype error = Errorf string

text \<open>
  \<open>make([]U, n)\<close> allocates \<open>n\<close> cells holding the zero value of \<open>U\<close>. The element
  type is generic, so the zero value is a parameter of the model.
\<close>

definition make_slice :: "'a \<Rightarrow> nat \<Rightarrow> 'a list" where
  "make_slice zero n = replicate n zero"

text \<open>
  The indexed assignment \<open>s[i] = x\<close>. Go checks the index at run time and panics
  when it is out of range: \<open>None\<close> is that panic.
\<close>

definition store_index :: "'a list \<Rightarrow> nat \<Rightarrow> 'a \<Rightarrow> 'a list option" where
  "store_index s i x = (if i < length s then Some (s[i := x]) else None)"

text \<open>
  \<open>Map\<close>: \<open>result := make([]U, len(list))\<close>, then \<open>for i, v := range list\<close> with the
  body \<open>result[i] = f(v)\<close>. The loop runs over the pairs \<open>(i, v)\<close> that \<open>range\<close>
  yields, which are \<open>enumerate 0 list\<close>.
\<close>

fun Map_loop :: "('t \<Rightarrow> 'u) \<Rightarrow> (nat \<times> 't) list \<Rightarrow> 'u list \<Rightarrow> 'u list option" where
  "Map_loop f [] result = Some result"
| "Map_loop f ((i, v) # rest) result =
     (case store_index result i (f v) of
        None \<Rightarrow> None
      | Some result' \<Rightarrow> Map_loop f rest result')"

definition Map :: "'u \<Rightarrow> 't list \<Rightarrow> ('t \<Rightarrow> 'u) \<Rightarrow> 'u list option" where
  "Map zero list f = Map_loop f (enumerate 0 list) (make_slice zero (length list))"

text \<open>
  \<open>Filter\<close>: \<open>result := make([]T, 0, len(list))\<close>, then for every \<open>v\<close> with \<open>f(v)\<close>,
  \<open>result = append(result, v)\<close>. The slice is not shared, so \<open>append\<close> is the list
  with \<open>v\<close> added at its end, whatever the capacity.
\<close>

fun Filter_loop :: "('t \<Rightarrow> bool) \<Rightarrow> 't list \<Rightarrow> 't list \<Rightarrow> 't list" where
  "Filter_loop f [] result = result"
| "Filter_loop f (v # rest) result =
     Filter_loop f rest (if f v then result @ [v] else result)"

definition Filter :: "'t list \<Rightarrow> ('t \<Rightarrow> bool) \<Rightarrow> 't list" where
  "Filter list f = Filter_loop f list []"

text \<open>\<open>Reduce\<close>: \<open>acc := initial\<close>, then \<open>acc = reducer(acc, item)\<close> for every item.\<close>

fun Reduce_loop :: "('r \<Rightarrow> 't \<Rightarrow> 'r) \<Rightarrow> 't list \<Rightarrow> 'r \<Rightarrow> 'r" where
  "Reduce_loop reducer [] acc = acc"
| "Reduce_loop reducer (item # rest) acc = Reduce_loop reducer rest (reducer acc item)"

definition Reduce :: "'t list \<Rightarrow> ('r \<Rightarrow> 't \<Rightarrow> 'r) \<Rightarrow> 'r \<Rightarrow> 'r" where
  "Reduce list reducer initial = Reduce_loop reducer list initial"

text \<open>
  \<open>ForEach\<close> calls \<open>f\<close> on every element for its effect; the effect is a change of a
  state \<open>'s\<close> that is passed along.
\<close>

fun ForEach :: "'t list \<Rightarrow> ('t \<Rightarrow> 's \<Rightarrow> 's) \<Rightarrow> 's \<Rightarrow> 's" where
  "ForEach [] f s = s"
| "ForEach (v # rest) f s = ForEach rest f (f v s)"

text \<open>
  \<open>Contains\<close> and \<open>IndexOf\<close> compare elements with \<open>==\<close> at the type parameter
  \<open>T comparable\<close>. What \<open>==\<close> does depends on \<open>T\<close>, so it is a parameter \<open>eq\<close> of the
  model, and it can fail: by the Go language specification, comparing two interface
  values with identical dynamic types panics at run time when that type is not
  comparable, and interface types satisfy \<open>comparable\<close>. \<open>eq a b = None\<close> is that
  panic; a function that meets it panics too, which is its result \<open>None\<close>.
\<close>

text \<open>
  \<open>==\<close> on a type whose values are equal exactly when they are the same value and
  whose comparison never panics, such as \<open>int\<close> or \<open>string\<close>.
\<close>

definition val_eq :: "'t \<Rightarrow> 't \<Rightarrow> bool option" where
  "val_eq a b = Some (a = b)"

text \<open>
  \<open>==\<close> on the interface type \<open>any\<close>, for values whose dynamic type is \<open>int\<close> or
  \<open>[]int\<close>: values of different dynamic types are unequal, two \<open>int\<close>s are compared
  by value, and two \<open>[]int\<close>s panic, a slice type being not comparable.
\<close>

datatype any_val = AnyInt int | AnySlice "int list"

fun any_eq :: "any_val \<Rightarrow> any_val \<Rightarrow> bool option" where
  "any_eq (AnyInt a) (AnyInt b) = Some (a = b)"
| "any_eq (AnySlice a) (AnySlice b) = None"
| "any_eq a b = Some False"

text \<open>\<open>Contains\<close> returns \<open>true\<close> at the first element for which \<open>v == target\<close>.\<close>

fun Contains :: "('t \<Rightarrow> 't \<Rightarrow> bool option) \<Rightarrow> 't list \<Rightarrow> 't \<Rightarrow> bool option" where
  "Contains eq [] target = Some False"
| "Contains eq (v # rest) target =
     (case eq v target of
        None \<Rightarrow> None
      | Some b \<Rightarrow> if b then Some True else Contains eq rest target)"

text \<open>
  \<open>IndexOf\<close> returns \<open>(i, nil)\<close> at the first element for which \<open>v == target\<close>, and
  \<open>(-1, fmt.Errorf("element not found"))\<close> when the loop ends.
\<close>

fun IndexOf_loop ::
  "('t \<Rightarrow> 't \<Rightarrow> bool option) \<Rightarrow> (nat \<times> 't) list \<Rightarrow> 't \<Rightarrow> (int \<times> error option) option" where
  "IndexOf_loop eq [] target = Some (- 1, Some (Errorf ''element not found''))"
| "IndexOf_loop eq ((i, v) # rest) target =
     (case eq v target of
        None \<Rightarrow> None
      | Some b \<Rightarrow> if b then Some (int i, None) else IndexOf_loop eq rest target)"

definition IndexOf ::
  "('t \<Rightarrow> 't \<Rightarrow> bool option) \<Rightarrow> 't list \<Rightarrow> 't \<Rightarrow> (int \<times> error option) option" where
  "IndexOf eq list target = IndexOf_loop eq (enumerate 0 list) target"

text \<open>
  The functions of the examples, on Go's \<open>int\<close>. The examples stay far from the 64-bit
  bounds, so the values are taken in \<open>int\<close>; \<open>%\<close> truncates towards zero, which is
  \<open>smod\<close>.
\<close>

definition square :: "int \<Rightarrow> int" where
  "square x = x * x"

definition isOdd :: "int \<Rightarrow> bool" where
  "isOdd x = (x smod 2 = 1)"

definition add :: "int \<Rightarrow> int \<Rightarrow> int" where
  "add acc item = acc + item"

section \<open>The concurrent operations\<close>

text \<open>
  \<open>CMap\<close>, \<open>CFilter\<close> and \<open>CReduce\<close> share one shape: after the test for the empty
  list, \<open>wg.Add(len(list))\<close>, a loop that starts one goroutine per element with
  \<open>go func(...) { defer wg.Done(); ... }(...)\<close>, then \<open>wg.Wait()\<close> and the return.
  A call is modelled as a pool of goroutines that a schedule drives: the schedule names,
  step by step, the goroutine that runs next, and every goroutine step is one access to
  the memory shared between the goroutines. The calling goroutine is \<open>MainG\<close>; \<open>G i\<close>
  is the goroutine started for the element at index \<open>i\<close>.
\<close>

datatype gid = MainG | G nat

text \<open>
  One step of a goroutine body, from its local state and the shared memory: it goes on
  with a new local state, it returns, or it panics.
\<close>

datatype ('l, 'sh) bstep = Next 'l 'sh | Return 'sh | Panic

text \<open>
  A started goroutine is running its body, or has left the body and is about to run the
  deferred \<open>wg.Done()\<close>, or has exited.
\<close>

datatype 'l goroutine = Running 'l | Deferred | Exited

record ('l, 'sh) pool =
  spawned :: "'l goroutine list"
  wg :: int
  shared :: 'sh
  panicked :: bool

text \<open>The state after \<open>wg.Add(n)\<close>, before the loop.\<close>

definition init_pool :: "nat \<Rightarrow> 'sh \<Rightarrow> ('l, 'sh) pool" where
  "init_pool n sh = \<lparr>spawned = [], wg = int n, shared = sh, panicked = False\<rparr>"

text \<open>
  A step of the calling goroutine: the next iteration of \<open>for i, v := range list\<close>
  starts the goroutine for index \<open>i\<close>, whose arguments \<open>start i v\<close> are evaluated at
  the \<open>go\<close> statement. After the loop the caller is in \<open>wg.Wait()\<close> and its step
  changes nothing.
\<close>

definition spawn_step ::
  "(nat \<Rightarrow> 't \<Rightarrow> 'l) \<Rightarrow> 't list \<Rightarrow> ('l, 'sh) pool \<Rightarrow> ('l, 'sh) pool" where
  "spawn_step start list s =
     (let i = length (spawned s)
      in if i < length list then s\<lparr>spawned := spawned s @ [Running (start i (list ! i))]\<rparr>
         else s)"

text \<open>
  A step of goroutine \<open>i\<close>: a step of its body; or the deferred \<open>wg.Done()\<close>, which
  decrements the counter and panics if it would become negative; or nothing, when the
  goroutine is not started yet or has exited. A panic is not recovered anywhere, so it
  ends the program.
\<close>

definition go_step ::
  "('l \<Rightarrow> 'sh \<Rightarrow> ('l, 'sh) bstep) \<Rightarrow> nat \<Rightarrow> ('l, 'sh) pool \<Rightarrow> ('l, 'sh) pool" where
  "go_step body i s =
     (if i < length (spawned s) then
        (case spawned s ! i of
           Running l \<Rightarrow>
             (case body l (shared s) of
                Next l' sh' \<Rightarrow> s\<lparr>spawned := (spawned s)[i := Running l'], shared := sh'\<rparr>
              | Return sh' \<Rightarrow> s\<lparr>spawned := (spawned s)[i := Deferred], shared := sh'\<rparr>
              | Panic \<Rightarrow> s\<lparr>panicked := True\<rparr>)
         | Deferred \<Rightarrow>
             (if wg s - 1 < 0 then s\<lparr>panicked := True\<rparr>
              else s\<lparr>spawned := (spawned s)[i := Exited], wg := wg s - 1\<rparr>)
         | Exited \<Rightarrow> s)
      else s)"

definition step ::
  "(nat \<Rightarrow> 't \<Rightarrow> 'l) \<Rightarrow> ('l \<Rightarrow> 'sh \<Rightarrow> ('l, 'sh) bstep) \<Rightarrow> 't list \<Rightarrow> gid \<Rightarrow>
   ('l, 'sh) pool \<Rightarrow> ('l, 'sh) pool" where
  "step start body list g s =
     (if panicked s then s
      else case g of MainG \<Rightarrow> spawn_step start list s | G i \<Rightarrow> go_step body i s)"

fun run ::
  "(nat \<Rightarrow> 't \<Rightarrow> 'l) \<Rightarrow> ('l \<Rightarrow> 'sh \<Rightarrow> ('l, 'sh) bstep) \<Rightarrow> 't list \<Rightarrow> gid list \<Rightarrow>
   ('l, 'sh) pool \<Rightarrow> ('l, 'sh) pool" where
  "run start body list [] s = s"
| "run start body list (g # sched) s = run start body list sched (step start body list g s)"

text \<open>
  What the call has done when the schedule ends: it has panicked; or the loop is over and
  the counter is zero, so that \<open>wg.Wait()\<close> lets the caller return the result it reads
  from the shared memory; or the caller is still blocked.
\<close>

datatype 'a outcome = Returned 'a | Blocked | Panicked

definition wait :: "'t list \<Rightarrow> ('sh \<Rightarrow> 'a) \<Rightarrow> ('l, 'sh) pool \<Rightarrow> 'a outcome" where
  "wait list res s =
     (if panicked s then Panicked
      else if length (spawned s) = length list \<and> wg s = 0 then Returned (res (shared s))
      else Blocked)"

text \<open>
  A slice that a concurrent operation returns is \<open>nil\<close> or a slice with elements; both
  have the elements \<open>elements\<close> gives.
\<close>

datatype 'a slice_value = NilSlice | SliceOf "'a list"

fun elements :: "'a slice_value \<Rightarrow> 'a list" where
  "elements NilSlice = []"
| "elements (SliceOf xs) = xs"

text \<open>
  A call is modelled by what it has done when the schedule ends, and by the pool it has
  set up: the wait group with its counter, the shared memory and the goroutines. A call
  that returns before \<open>wg.Add\<close> sets up none, which is \<open>None\<close>.
\<close>

type_synonym ('a, 'l, 'sh) call = "'a outcome \<times> ('l, 'sh) pool option"

subsection \<open>CMap\<close>

text \<open>
  The goroutine of \<open>CMap\<close> gets \<open>(i, v)\<close> and runs \<open>result[i] = f(v)\<close>. The shared
  memory is the array of \<open>result\<close>, made with \<open>len(list)\<close> cells; the slice variable
  itself is never assigned. \<open>f\<close> is pure, so its evaluation and the write are one step.
\<close>

definition CMap_body :: "('t \<Rightarrow> 'u) \<Rightarrow> nat \<times> 't \<Rightarrow> 'u list \<Rightarrow> (nat \<times> 't, 'u list) bstep" where
  "CMap_body f l result =
     (case l of (i, v) \<Rightarrow>
        (case store_index result i (f v) of
           None \<Rightarrow> Panic
         | Some result' \<Rightarrow> Return result'))"

definition CMap_pool ::
  "'u \<Rightarrow> 't list \<Rightarrow> ('t \<Rightarrow> 'u) \<Rightarrow> gid list \<Rightarrow> (nat \<times> 't, 'u list) pool" where
  "CMap_pool zero list f sched =
     run (\<lambda>i v. (i, v)) (CMap_body f) list sched
       (init_pool (length list) (make_slice zero (length list)))"

text \<open>
  The call: \<open>return nil\<close> on the empty list, before anything is set up; otherwise the
  pool, and \<open>return result\<close> after \<open>wg.Wait()\<close>.
\<close>

definition CMap_call ::
  "'u \<Rightarrow> 't list \<Rightarrow> ('t \<Rightarrow> 'u) \<Rightarrow> gid list \<Rightarrow> ('u slice_value, nat \<times> 't, 'u list) call" where
  "CMap_call zero list f sched =
     (if length list = 0 then (Returned NilSlice, None)
      else (wait list SliceOf (CMap_pool zero list f sched),
            Some (CMap_pool zero list f sched)))"

text \<open>What the call has done, with the returned slice taken by its elements.\<close>

definition CMap :: "'u \<Rightarrow> 't list \<Rightarrow> ('t \<Rightarrow> 'u) \<Rightarrow> gid list \<Rightarrow> 'u list outcome" where
  "CMap zero list f sched = map_outcome elements (fst (CMap_call zero list f sched))"

subsection \<open>CFilter\<close>

text \<open>
  In \<open>CFilter\<close> every goroutine runs \<open>result = append(result, v)\<close> on the one variable
  \<open>result\<close>, so the slice is modelled as Go has it: a header (array, length, capacity)
  held in the variable, and arrays in a heap, addressed by their position in it.
\<close>

record slice =
  ptr :: nat
  len :: nat
  cap :: nat

record 't filter_shared =
  result :: slice
  heap :: "'t list list"

text \<open>
  The goroutine gets \<open>v\<close>. If \<open>f(v)\<close> is false it returns. Otherwise \<open>append\<close> reads
  the header of \<open>result\<close> (\<open>FStart\<close> to \<open>FStore\<close>); then it stores \<open>v\<close> in the cell
  after the length it has read, in the same array when the capacity it has read
  allows, else in a new array holding the old elements and \<open>v\<close> (Go leaves the new
  capacity to the runtime; the model takes the least one) (\<open>FStore\<close> to \<open>FAssign\<close>);
  then the new header is assigned to \<open>result\<close>. No lock is taken anywhere in the
  source, so each of the three accesses is a step of its own.
\<close>

datatype 't filter_pc = FStart 't | FStore 't slice | FAssign slice

definition CFilter_body ::
  "('t \<Rightarrow> bool) \<Rightarrow> 't filter_pc \<Rightarrow> 't filter_shared \<Rightarrow>
   ('t filter_pc, 't filter_shared) bstep" where
  "CFilter_body f l sh =
     (case l of
        FStart v \<Rightarrow> if f v then Next (FStore v (result sh)) sh else Return sh
      | FStore v h \<Rightarrow>
          if len h < cap h then
            Next (FAssign (h\<lparr>len := len h + 1\<rparr>))
                 (sh\<lparr>heap := (heap sh)[ptr h := (heap sh ! ptr h)[len h := v]]\<rparr>)
          else
            Next (FAssign \<lparr>ptr = length (heap sh), len = len h + 1, cap = len h + 1\<rparr>)
                 (sh\<lparr>heap := heap sh @ [take (len h) (heap sh ! ptr h) @ [v]]\<rparr>)
      | FAssign h' \<Rightarrow> Return (sh\<lparr>result := h'\<rparr>))"

text \<open>The elements of the slice that \<open>result\<close> holds.\<close>

definition elems :: "'t filter_shared \<Rightarrow> 't list" where
  "elems sh = take (len (result sh)) (heap sh ! ptr (result sh))"

text \<open>\<open>result := make([]T, 0, len(list))\<close>: length 0, capacity \<open>len(list)\<close>.\<close>

definition CFilter_pool ::
  "'t \<Rightarrow> 't list \<Rightarrow> ('t \<Rightarrow> bool) \<Rightarrow> gid list \<Rightarrow> ('t filter_pc, 't filter_shared) pool" where
  "CFilter_pool zero list f sched =
     run (\<lambda>i v. FStart v) (CFilter_body f) list sched
       (init_pool (length list)
          \<lparr>result = \<lparr>ptr = 0, len = 0, cap = length list\<rparr>,
           heap = [make_slice zero (length list)]\<rparr>)"

definition CFilter_call ::
  "'t \<Rightarrow> 't list \<Rightarrow> ('t \<Rightarrow> bool) \<Rightarrow> gid list \<Rightarrow>
   ('t slice_value, 't filter_pc, 't filter_shared) call" where
  "CFilter_call zero list f sched =
     (if length list = 0 then (Returned NilSlice, None)
      else (wait list (\<lambda>sh. SliceOf (elems sh)) (CFilter_pool zero list f sched),
            Some (CFilter_pool zero list f sched)))"

definition CFilter :: "'t \<Rightarrow> 't list \<Rightarrow> ('t \<Rightarrow> bool) \<Rightarrow> gid list \<Rightarrow> 't list outcome" where
  "CFilter zero list f sched = map_outcome elements (fst (CFilter_call zero list f sched))"

subsection \<open>CReduce\<close>

text \<open>
  The goroutine gets \<open>v\<close> and runs \<open>acc = reducer(acc, v)\<close> on the shared variable
  \<open>acc\<close>: it reads \<open>acc\<close> and computes the new value (\<open>RStart\<close> to \<open>RAssign\<close>), then
  assigns it. No lock is taken, so the read and the write are two steps.
\<close>

datatype ('t, 'r) reduce_pc = RStart 't | RAssign 'r

definition CReduce_body ::
  "('r \<Rightarrow> 't \<Rightarrow> 'r) \<Rightarrow> ('t, 'r) reduce_pc \<Rightarrow> 'r \<Rightarrow> (('t, 'r) reduce_pc, 'r) bstep" where
  "CReduce_body reducer l acc =
     (case l of
        RStart v \<Rightarrow> Next (RAssign (reducer acc v)) acc
      | RAssign x \<Rightarrow> Return x)"

definition CReduce_pool ::
  "'t list \<Rightarrow> ('r \<Rightarrow> 't \<Rightarrow> 'r) \<Rightarrow> 'r \<Rightarrow> gid list \<Rightarrow> (('t, 'r) reduce_pc, 'r) pool" where
  "CReduce_pool list reducer initial sched =
     run (\<lambda>i v. RStart v) (CReduce_body reducer) list sched
       (init_pool (length list) initial)"

definition CReduce_call ::
  "'t list \<Rightarrow> ('r \<Rightarrow> 't \<Rightarrow> 'r) \<Rightarrow> 'r \<Rightarrow> gid list \<Rightarrow> ('r, ('t, 'r) reduce_pc, 'r) call" where
  "CReduce_call list reducer initial sched =
     (if length list = 0 then (Returned initial, None)
      else (wait list (\<lambda>acc. acc) (CReduce_pool list reducer initial sched),
            Some (CReduce_pool list reducer initial sched)))"

definition CReduce :: "'t list \<Rightarrow> ('r \<Rightarrow> 't \<Rightarrow> 'r) \<Rightarrow> 'r \<Rightarrow> gid list \<Rightarrow> 'r outcome" where
  "CReduce list reducer initial sched = fst (CReduce_call list reducer initial sched)"

subsection \<open>Goroutines inside an access to the shared variable\<close>

text \<open>
  A goroutine of \<open>CFilter\<close> is inside its \<open>append\<close> from the read of \<open>result\<close> to the
  assignment to it; a goroutine of \<open>CReduce\<close> is inside its update from the read of
  \<open>acc\<close> to the assignment to it. Under mutual exclusion at most one goroutine is
  there at a time.
\<close>

fun in_append :: "'t filter_pc goroutine \<Rightarrow> bool" where
  "in_append (Running (FStore v h)) = True"
| "in_append (Running (FAssign h)) = True"
| "in_append g = False"

fun in_update :: "('t, 'r) reduce_pc goroutine \<Rightarrow> bool" where
  "in_update (Running (RAssign x)) = True"
| "in_update g = False"

definition exclusive :: "('l goroutine \<Rightarrow> bool) \<Rightarrow> ('l, 'sh) pool \<Rightarrow> bool" where
  "exclusive inside s \<longleftrightarrow> length (filter inside (spawned s)) \<le> 1"

subsection \<open>Invariants of the pool\<close>

text \<open>
  The counter of the wait group is the number of goroutines still to start plus the
  number of started goroutines that have not exited.
\<close>

fun alive :: "'l goroutine \<Rightarrow> nat" where
  "alive (Running l) = 1"
| "alive Deferred = 1"
| "alive Exited = 0"

definition wg_inv :: "nat \<Rightarrow> ('l, 'sh) pool \<Rightarrow> bool" where
  "wg_inv n s \<longleftrightarrow>
     length (spawned s) \<le> n \<and>
     wg s = int (n - length (spawned s)) + int (sum_list (map alive (spawned s)))"

definition pool_ok :: "nat \<Rightarrow> ('l, 'sh) pool \<Rightarrow> bool" where
  "pool_ok n s \<longleftrightarrow> wg_inv n s \<and> \<not> panicked s"

text \<open>
  The steps a pool still has to take, given the number \<open>left l\<close> of body steps that a
  goroutine in local state \<open>l\<close> takes before the step on which it returns, and a bound
  \<open>b\<close> on it for a goroutine that starts.
\<close>

fun todo :: "('l \<Rightarrow> nat) \<Rightarrow> 'l goroutine \<Rightarrow> nat" where
  "todo left (Running l) = left l + 2"
| "todo left Deferred = 1"
| "todo left Exited = 0"

definition work :: "('l \<Rightarrow> nat) \<Rightarrow> nat \<Rightarrow> nat \<Rightarrow> ('l, 'sh) pool \<Rightarrow> nat" where
  "work left b n s = (b + 3) * (n - length (spawned s)) + sum_list (map (todo left) (spawned s))"

text \<open>
  In \<open>CMap\<close> the goroutine at index \<open>i\<close> still holds its arguments \<open>(i, list[i])\<close>, or
  it has written \<open>f(list[i])\<close> to cell \<open>i\<close>, which no other goroutine writes.
\<close>

definition CMap_inv :: "('t \<Rightarrow> 'u) \<Rightarrow> 't list \<Rightarrow> (nat \<times> 't, 'u list) pool \<Rightarrow> bool" where
  "CMap_inv f list s \<longleftrightarrow>
     \<not> panicked s \<and> wg_inv (length list) s \<and> length (shared s) = length list \<and>
     (\<forall>i<length (spawned s).
        spawned s ! i = Running (i, list ! i) \<or>
        (spawned s ! i = Deferred \<or> spawned s ! i = Exited) \<and> shared s ! i = f (list ! i))"

section \<open>Properties of the sequential operations\<close>

lemma Map_loop_enumerate:
  "k + length vs \<le> length res \<Longrightarrow>
   \<exists>r. Map_loop f (enumerate k vs) res = Some r \<and> length r = length res \<and>
       (\<forall>j<length res.
          r ! j = (if k \<le> j \<and> j < k + length vs then f (vs ! (j - k)) else res ! j))"
proof (induction vs arbitrary: k res)
  case Nil
  then show ?case by auto
next
  case (Cons v vs)
  let ?res = "res[k := f v]"
  from Cons.prems have k: "k < length res" by simp
  from Cons.prems have "Suc k + length vs \<le> length ?res" by simp
  from Cons.IH [OF this] obtain r where
    r: "Map_loop f (enumerate (Suc k) vs) ?res = Some r" "length r = length ?res"
      "\<forall>j<length ?res.
         r ! j = (if Suc k \<le> j \<and> j < Suc k + length vs then f (vs ! (j - Suc k)) else ?res ! j)"
    by blast
  have run: "Map_loop f (enumerate k (v # vs)) res = Some r"
    using k r(1) by (simp add: store_index_def)
  have "r ! j = (if k \<le> j \<and> j < k + length (v # vs) then f ((v # vs) ! (j - k)) else res ! j)"
    if j: "j < length res" for j
  proof (cases "j = k")
    case True
    with r(3) k show ?thesis by simp
  next
    case False
    with r(3) j show ?thesis by (auto simp: nth_Cons' Suc_diff_Suc)
  qed
  with run r(2) show ?case by simp
qed

lemma Map_map: "Map zero list f = Some (map f list)"
proof -
  from Map_loop_enumerate [of 0 list "make_slice zero (length list)" f] obtain r where
    r: "Map zero list f = Some r" "length r = length list"
      "\<forall>j<length list. r ! j = f (list ! j)"
    by (auto simp: Map_def make_slice_def)
  then have "r = map f list" by (simp add: list_eq_iff_nth_eq)
  with r(1) show ?thesis by simp
qed

lemma Filter_loop_filter: "Filter_loop f vs res = res @ filter f vs"
  by (induction vs arbitrary: res) simp_all

lemma Filter_filter: "Filter list f = filter f list"
  by (simp add: Filter_def Filter_loop_filter)

lemma Reduce_loop_foldl: "Reduce_loop reducer vs acc = foldl reducer acc vs"
  by (induction vs arbitrary: acc) simp_all

lemma Reduce_foldl: "Reduce list reducer initial = foldl reducer initial list"
  by (simp add: Reduce_def Reduce_loop_foldl)

lemma ForEach_fold: "ForEach list f s = fold f list s"
  by (induction list arbitrary: s) simp_all

text \<open>
  Both loops compare the elements with the target in order and stop at the first
  comparison that is true or panics. So a scan ends in one of three ways.
\<close>

lemma scan_cases:
  "(\<exists>j<length vs. eq (vs ! j) target = Some True \<and> (\<forall>m<j. eq (vs ! m) target = Some False)) \<or>
   (\<exists>j<length vs. eq (vs ! j) target = None \<and> (\<forall>m<j. eq (vs ! m) target = Some False)) \<or>
   (\<forall>v\<in>set vs. eq v target = Some False)"
proof (induction vs)
  case Nil
  then show ?case by simp
next
  case (Cons v vs)
  show ?case
  proof (cases "eq v target")
    case None
    then have "\<exists>j<length (v # vs). eq ((v # vs) ! j) target = None \<and>
        (\<forall>m<j. eq ((v # vs) ! m) target = Some False)"
      by (intro exI [of _ 0]) simp
    then show ?thesis by blast
  next
    case (Some b)
    show ?thesis
    proof (cases b)
      case True
      with Some have "\<exists>j<length (v # vs). eq ((v # vs) ! j) target = Some True \<and>
          (\<forall>m<j. eq ((v # vs) ! m) target = Some False)"
        by (intro exI [of _ 0]) simp
      then show ?thesis by blast
    next
      case False
      with Some have v: "eq v target = Some False" by simp
      have shift: "\<exists>j<length (v # vs). eq ((v # vs) ! j) target = r \<and>
          (\<forall>m<j. eq ((v # vs) ! m) target = Some False)"
        if "\<exists>j<length vs. eq (vs ! j) target = r \<and> (\<forall>m<j. eq (vs ! m) target = Some False)"
        for r
      proof -
        from that obtain j where
          j: "j < length vs" "eq (vs ! j) target = r" "\<forall>m<j. eq (vs ! m) target = Some False"
          by blast
        have "\<forall>m<Suc j. eq ((v # vs) ! m) target = Some False"
          using v j(3) by (auto simp: nth_Cons' less_Suc_eq_0_disj)
        with j(1,2) show ?thesis by (intro exI [of _ "Suc j"]) simp
      qed
      from Cons.IH show ?thesis
      proof (elim disjE)
        assume "\<exists>j<length vs. eq (vs ! j) target = Some True \<and>
          (\<forall>m<j. eq (vs ! m) target = Some False)"
        from shift [OF this] show ?thesis by blast
      next
        assume "\<exists>j<length vs. eq (vs ! j) target = None \<and>
          (\<forall>m<j. eq (vs ! m) target = Some False)"
        from shift [OF this] show ?thesis by blast
      next
        assume "\<forall>v\<in>set vs. eq v target = Some False"
        with v show ?thesis by simp
      qed
    qed
  qed
qed

lemma Contains_match:
  "j < length vs \<Longrightarrow> eq (vs ! j) target = Some True \<Longrightarrow>
   \<forall>m<j. eq (vs ! m) target = Some False \<Longrightarrow> Contains eq vs target = Some True"
proof (induction vs arbitrary: j)
  case Nil
  then show ?case by simp
next
  case (Cons v vs)
  show ?case
  proof (cases j)
    case 0
    with Cons.prems show ?thesis by simp
  next
    case (Suc j')
    with Cons.prems have "eq v target = Some False" by auto
    moreover from Cons.prems Suc have "Contains eq vs target = Some True"
      by (intro Cons.IH [of j']) auto
    ultimately show ?thesis by simp
  qed
qed

lemma Contains_panic:
  "j < length vs \<Longrightarrow> eq (vs ! j) target = None \<Longrightarrow>
   \<forall>m<j. eq (vs ! m) target = Some False \<Longrightarrow> Contains eq vs target = None"
proof (induction vs arbitrary: j)
  case Nil
  then show ?case by simp
next
  case (Cons v vs)
  show ?case
  proof (cases j)
    case 0
    with Cons.prems show ?thesis by simp
  next
    case (Suc j')
    with Cons.prems have "eq v target = Some False" by auto
    moreover from Cons.prems Suc have "Contains eq vs target = None"
      by (intro Cons.IH [of j']) auto
    ultimately show ?thesis by simp
  qed
qed

lemma Contains_absent:
  "\<forall>v\<in>set vs. eq v target = Some False \<Longrightarrow> Contains eq vs target = Some False"
  by (induction vs) simp_all

lemma IndexOf_loop_match:
  "j < length vs \<Longrightarrow> eq (vs ! j) target = Some True \<Longrightarrow>
   \<forall>m<j. eq (vs ! m) target = Some False \<Longrightarrow>
   IndexOf_loop eq (enumerate k vs) target = Some (int (k + j), None)"
proof (induction vs arbitrary: j k)
  case Nil
  then show ?case by simp
next
  case (Cons v vs)
  show ?case
  proof (cases j)
    case 0
    with Cons.prems show ?thesis by simp
  next
    case (Suc j')
    with Cons.prems have "eq v target = Some False" by auto
    moreover from Cons.prems Suc
    have "IndexOf_loop eq (enumerate (Suc k) vs) target = Some (int (Suc k + j'), None)"
      by (intro Cons.IH [of j']) auto
    ultimately show ?thesis using Suc by simp
  qed
qed

lemma IndexOf_loop_panic:
  "j < length vs \<Longrightarrow> eq (vs ! j) target = None \<Longrightarrow>
   \<forall>m<j. eq (vs ! m) target = Some False \<Longrightarrow>
   IndexOf_loop eq (enumerate k vs) target = None"
proof (induction vs arbitrary: j k)
  case Nil
  then show ?case by simp
next
  case (Cons v vs)
  show ?case
  proof (cases j)
    case 0
    with Cons.prems show ?thesis by simp
  next
    case (Suc j')
    with Cons.prems have "eq v target = Some False" by auto
    moreover from Cons.prems Suc
    have "IndexOf_loop eq (enumerate (Suc k) vs) target = None"
      by (intro Cons.IH [of j']) auto
    ultimately show ?thesis by simp
  qed
qed

lemma IndexOf_loop_absent:
  "\<forall>v\<in>set vs. eq v target = Some False \<Longrightarrow>
   IndexOf_loop eq (enumerate k vs) target = Some (- 1, Some (Errorf ''element not found''))"
  by (induction vs arbitrary: k) simp_all

lemma IndexOf_match:
  "j < length list \<Longrightarrow> eq (list ! j) target = Some True \<Longrightarrow>
   \<forall>m<j. eq (list ! m) target = Some False \<Longrightarrow>
   IndexOf eq list target = Some (int j, None)"
  using IndexOf_loop_match [of j list eq target 0] by (simp add: IndexOf_def)

lemma IndexOf_panic:
  "j < length list \<Longrightarrow> eq (list ! j) target = None \<Longrightarrow>
   \<forall>m<j. eq (list ! m) target = Some False \<Longrightarrow> IndexOf eq list target = None"
  using IndexOf_loop_panic [of j list eq target 0] by (simp add: IndexOf_def)

lemma IndexOf_absent:
  "\<forall>v\<in>set list. eq v target = Some False \<Longrightarrow>
   IndexOf eq list target = Some (- 1, Some (Errorf ''element not found''))"
  by (simp add: IndexOf_def IndexOf_loop_absent)

text \<open>Where \<open>==\<close> is equality of values, the first match is the first occurrence.\<close>

lemma val_eq_first:
  "target \<in> set list \<Longrightarrow>
   \<exists>j<length list. list ! j = target \<and> (\<forall>m<j. list ! m \<noteq> target) \<and>
      val_eq (list ! j) target = Some True \<and> (\<forall>m<j. val_eq (list ! m) target = Some False)"
proof -
  assume "target \<in> set list"
  then have ex: "\<exists>j. j < length list \<and> list ! j = target"
    by (auto simp: in_set_conv_nth)
  define j where "j = (LEAST j. j < length list \<and> list ! j = target)"
  from LeastI_ex [OF ex] have j: "j < length list" "list ! j = target"
    by (simp_all add: j_def)
  have "list ! m \<noteq> target" if "m < j" for m
  proof
    assume "list ! m = target"
    with that j(1) have "j \<le> m"
      unfolding j_def by (intro Least_le) simp
    with that show False by simp
  qed
  with j show ?thesis by (auto simp: val_eq_def)
qed

lemma val_eq_absent:
  "target \<notin> set list \<Longrightarrow> \<forall>v\<in>set list. val_eq v target = Some False"
  by (auto simp: val_eq_def)

section \<open>Properties of the pool\<close>

lemma sum_list_map_update:
  fixes h :: "'a \<Rightarrow> nat"
  shows "i < length xs \<Longrightarrow> sum_list (map h (xs[i := y])) + h (xs ! i) = sum_list (map h xs) + h y"
proof (induction xs arbitrary: i)
  case Nil
  then show ?case by simp
next
  case (Cons x xs)
  then show ?case by (cases i) auto
qed

lemma sum_list_zero_nth:
  fixes h :: "'a \<Rightarrow> nat"
  shows "sum_list (map h xs) = 0 \<Longrightarrow> i < length xs \<Longrightarrow> h (xs ! i) = 0"
  by (induction xs arbitrary: i) (auto simp: nth_Cons')

lemma sum_list_pos_nth:
  fixes h :: "'a \<Rightarrow> nat"
  shows "0 < sum_list (map h xs) \<Longrightarrow> \<exists>i<length xs. 0 < h (xs ! i)"
proof (induction xs)
  case Nil
  then show ?case by simp
next
  case (Cons x xs)
  show ?case
  proof (cases "0 < h x")
    case True
    then show ?thesis by (intro exI [of _ 0]) simp
  next
    case False
    with Cons obtain i where "i < length xs" "0 < h (xs ! i)" by auto
    then show ?thesis by (intro exI [of _ "Suc i"]) simp
  qed
qed

lemma run_append:
  "run start body list (sched @ ext) s = run start body list ext (run start body list sched s)"
  by (induction sched arbitrary: s) simp_all

lemma wg_inv_init: "wg_inv n (init_pool n sh)"
  by (simp add: wg_inv_def init_pool_def)

lemma wg_inv_spawn: "wg_inv (length list) s \<Longrightarrow> wg_inv (length list) (spawn_step start list s)"
  by (auto simp: wg_inv_def spawn_step_def Let_def)

lemma wg_inv_alive_pos:
  assumes "wg_inv n s" "i < length (spawned s)" "spawned s ! i \<noteq> Exited"
  shows "0 < wg s"
proof -
  have "alive (spawned s ! i) \<noteq> 0" using assms(3) by (cases "spawned s ! i") simp_all
  with sum_list_zero_nth [of alive "spawned s" i] assms(2)
  have "sum_list (map alive (spawned s)) \<noteq> 0" by blast
  then have "0 < int (sum_list (map alive (spawned s)))" by linarith
  moreover have "0 \<le> int (n - length (spawned s))" by linarith
  ultimately show ?thesis using assms(1) unfolding wg_inv_def by linarith
qed

lemma wg_inv_go: "wg_inv n s \<Longrightarrow> wg_inv n (go_step body i s)"
proof -
  assume inv: "wg_inv n s"
  show ?thesis
  proof (cases "i < length (spawned s)")
    case False
    with inv show ?thesis by (simp add: go_step_def)
  next
    case True
    note i = this
    show ?thesis
    proof (cases "spawned s ! i")
      case (Running l)
      show ?thesis
      proof (cases "body l (shared s)")
        case (Next l' sh')
        from sum_list_map_update [OF i, of alive "Running l'"] Running
        have "sum_list (map alive ((spawned s)[i := Running l'])) = sum_list (map alive (spawned s))"
          by simp
        with inv i Running Next show ?thesis by (simp add: go_step_def wg_inv_def)
      next
        case (Return sh')
        from sum_list_map_update [OF i, of alive Deferred] Running
        have "sum_list (map alive ((spawned s)[i := Deferred])) = sum_list (map alive (spawned s))"
          by simp
        with inv i Running Return show ?thesis by (simp add: go_step_def wg_inv_def)
      next
        case Panic
        with inv i Running show ?thesis by (simp add: go_step_def wg_inv_def)
      qed
    next
      case Deferred
      from sum_list_map_update [OF i, of alive Exited] Deferred
      have "sum_list (map alive ((spawned s)[i := Exited])) + 1 = sum_list (map alive (spawned s))"
        by simp
      with inv i Deferred show ?thesis by (auto simp: go_step_def wg_inv_def)
    next
      case Exited
      with inv i show ?thesis by (simp add: go_step_def)
    qed
  qed
qed

lemma wg_inv_step: "wg_inv (length list) s \<Longrightarrow> wg_inv (length list) (step start body list g s)"
  by (cases g) (simp_all add: step_def wg_inv_spawn wg_inv_go)

lemma wg_inv_finished:
  assumes "wg_inv n s" "length (spawned s) = n" "wg s = 0" "i < n"
  shows "spawned s ! i = Exited"
proof -
  from assms(1-3) have "sum_list (map alive (spawned s)) = 0" by (simp add: wg_inv_def)
  from sum_list_zero_nth [OF this, of i] assms(2,4) have "alive (spawned s ! i) = 0" by simp
  then show ?thesis by (cases "spawned s ! i") simp_all
qed

text \<open>
  Progress: while work is left, some goroutine has a step that reduces it, provided no
  body step at hand panics and every body step that goes on comes closer to returning.
\<close>

lemma pool_progress:
  assumes ok: "pool_ok (length list) s"
    and nopanic: "\<And>i l. i < length (spawned s) \<Longrightarrow> spawned s ! i = Running l \<Longrightarrow>
                    body l (shared s) \<noteq> Panic"
    and dec: "\<And>l sh l' sh'. body l sh = Next l' sh' \<Longrightarrow> left l' < left l"
    and bound: "\<And>i v. left (start i v) \<le> b"
    and w: "0 < work left b (length list) s"
  shows "\<exists>g. work left b (length list) (step start body list g s) < work left b (length list) s"
proof (cases "length (spawned s) < length list")
  case True
  then obtain k where k: "length list - length (spawned s) = Suc k"
    by (metis Suc_diff_Suc)
  let ?new = "Running (start (length (spawned s)) (list ! length (spawned s)))"
  have s': "step start body list MainG s = s\<lparr>spawned := spawned s @ [?new]\<rparr>"
    using ok True by (simp add: step_def spawn_step_def Let_def pool_ok_def)
  from k have k': "length list - Suc (length (spawned s)) = k" by simp
  from bound [of "length (spawned s)" "list ! length (spawned s)"]
  have "todo left ?new < b + 3" by simp
  then have "work left b (length list) (step start body list MainG s)
               < work left b (length list) s"
    by (simp add: s' work_def k k')
  then show ?thesis ..
next
  case False
  with w have "0 < sum_list (map (todo left) (spawned s))" by (simp add: work_def)
  from sum_list_pos_nth [OF this] obtain i where
    i: "i < length (spawned s)" and t: "0 < todo left (spawned s ! i)"
    by blast
  from ok have wgi: "wg_inv (length list) s" and np: "\<not> panicked s"
    by (simp_all add: pool_ok_def)
  have "work left b (length list) (go_step body i s) < work left b (length list) s"
  proof (cases "spawned s ! i")
    case (Running l)
    show ?thesis
    proof (cases "body l (shared s)")
      case (Next l' sh')
      then have s': "go_step body i s = s\<lparr>spawned := (spawned s)[i := Running l'], shared := sh'\<rparr>"
        using i Running by (simp add: go_step_def)
      from sum_list_map_update [OF i, of "todo left" "Running l'"] Running dec [OF Next]
      show ?thesis by (simp add: s' work_def)
    next
      case (Return sh')
      then have s': "go_step body i s = s\<lparr>spawned := (spawned s)[i := Deferred], shared := sh'\<rparr>"
        using i Running by (simp add: go_step_def)
      from sum_list_map_update [OF i, of "todo left" Deferred] Running
      show ?thesis by (simp add: s' work_def)
    next
      case Panic
      with nopanic [OF i Running] show ?thesis by simp
    qed
  next
    case Deferred
    from wg_inv_alive_pos [OF wgi i] Deferred have "0 < wg s" by simp
    then have s': "go_step body i s = s\<lparr>spawned := (spawned s)[i := Exited], wg := wg s - 1\<rparr>"
      using i Deferred by (simp add: go_step_def)
    from sum_list_map_update [OF i, of "todo left" Exited] Deferred
    show ?thesis by (simp add: s' work_def)
  next
    case Exited
    with t show ?thesis by simp
  qed
  with np have "work left b (length list) (step start body list (G i) s)
                  < work left b (length list) s"
    by (simp add: step_def)
  then show ?thesis ..
qed

text \<open>
  Hence from every state of an invariant \<open>I\<close> that keeps the pool in order and excludes
  panics, some continuation of the schedule takes all the steps that are left.
\<close>

lemma pool_complete:
  assumes pres: "\<And>s g. I s \<Longrightarrow> I (step start body list g s)"
    and ok: "\<And>s. I s \<Longrightarrow> pool_ok (length list) s"
    and nopanic: "\<And>s i l. I s \<Longrightarrow> i < length (spawned s) \<Longrightarrow> spawned s ! i = Running l \<Longrightarrow>
                    body l (shared s) \<noteq> Panic"
    and dec: "\<And>l sh l' sh'. body l sh = Next l' sh' \<Longrightarrow> left l' < left l"
    and bound: "\<And>i v. left (start i v) \<le> b"
  shows "I s \<Longrightarrow> \<exists>ext. work left b (length list) (run start body list ext s) = 0"
proof (induction "work left b (length list) s" arbitrary: s rule: less_induct)
  case less
  show ?case
  proof (cases "work left b (length list) s = 0")
    case True
    then have "work left b (length list) (run start body list [] s) = 0" by simp
    then show ?thesis ..
  next
    case False
    then have "0 < work left b (length list) s" by simp
    have "\<exists>g. work left b (length list) (step start body list g s)
                < work left b (length list) s"
    proof (rule pool_progress)
      show "pool_ok (length list) s" by (rule ok [OF less.prems])
      show "body l (shared s) \<noteq> Panic"
        if "i < length (spawned s)" "spawned s ! i = Running l" for i l
        using that by (rule nopanic [OF less.prems])
      show "left l' < left l" if "body l sh = Next l' sh'" for l sh l' sh'
        using that by (rule dec)
      show "left (start i v) \<le> b" for i v by (rule bound)
      show "0 < work left b (length list) s" by fact
    qed
    then obtain g where
      g: "work left b (length list) (step start body list g s) < work left b (length list) s"
      by blast
    from less.hyps [OF g pres [OF less.prems]] obtain ext where
      "work left b (length list) (run start body list ext (step start body list g s)) = 0"
      by blast
    then have "work left b (length list) (run start body list (g # ext) s) = 0"
      by simp
    then show ?thesis ..
  qed
qed

lemma work_zero_finished:
  assumes "wg_inv n s" "work left b n s = 0"
  shows "length (spawned s) = n \<and> wg s = 0"
proof -
  from assms have len: "length (spawned s) = n"
    and t: "sum_list (map (todo left) (spawned s)) = 0"
    by (simp_all add: wg_inv_def work_def)
  have "alive g = 0" if "g \<in> set (spawned s)" for g
  proof -
    from that t have "todo left g = 0" by simp
    then show ?thesis by (cases g) simp_all
  qed
  then have "sum_list (map alive (spawned s)) = 0" by simp
  with assms(1) len show ?thesis by (simp add: wg_inv_def)
qed

lemma work_zero_wait:
  assumes "pool_ok (length list) s" "work left b (length list) s = 0"
  shows "wait list res s = Returned (res (shared s))"
  using assms work_zero_finished [of "length list" s left b]
  by (simp add: pool_ok_def wait_def)

section \<open>Properties of the concurrent operations\<close>

lemma map_outcome_wait: "map_outcome g (wait list res s) = wait list (\<lambda>sh. g (res sh)) s"
  by (simp add: wait_def)

lemma CMap_unfold:
  "CMap zero list f sched =
     (if length list = 0 then Returned []
      else wait list (\<lambda>r. r) (CMap_pool zero list f sched))"
  by (simp add: CMap_def CMap_call_def map_outcome_wait)

lemma CFilter_unfold:
  "CFilter zero list f sched =
     (if length list = 0 then Returned []
      else wait list elems (CFilter_pool zero list f sched))"
  by (simp add: CFilter_def CFilter_call_def map_outcome_wait)

lemma CReduce_unfold:
  "CReduce list reducer initial sched =
     (if length list = 0 then Returned initial
      else wait list (\<lambda>r. r) (CReduce_pool list reducer initial sched))"
  by (simp add: CReduce_def CReduce_call_def)

lemma CMap_inv_init:
  "CMap_inv f list (init_pool (length list) (make_slice zero (length list)))"
  using wg_inv_init [of "length list" "make_slice zero (length list)"]
  by (simp add: CMap_inv_def) (simp add: init_pool_def make_slice_def)

lemma CMap_inv_spawn:
  assumes "CMap_inv f list s"
  shows "CMap_inv f list (spawn_step (\<lambda>i v. (i, v)) list s)"
proof (cases "length (spawned s) < length list")
  case False
  with assms show ?thesis by (simp add: spawn_step_def)
next
  case True
  let ?s' = "spawn_step (\<lambda>i v. (i, v)) list s"
  have s': "?s' = s\<lparr>spawned := spawned s @ [Running (length (spawned s), list ! length (spawned s))]\<rparr>"
    using True by (simp add: spawn_step_def Let_def)
  have "wg_inv (length list) ?s'"
    using assms by (simp add: CMap_inv_def wg_inv_spawn)
  moreover have "(spawned ?s' ! i = Running (i, list ! i) \<or>
        (spawned ?s' ! i = Deferred \<or> spawned ?s' ! i = Exited) \<and> shared ?s' ! i = f (list ! i))" if "i < length (spawned ?s')" for i
  proof (cases "i < length (spawned s)")
    case True
    with assms show ?thesis by (simp add: s' CMap_inv_def nth_append)
  next
    case False
    with that have "i = length (spawned s)" by (simp add: s')
    then show ?thesis by (simp add: s')
  qed
  ultimately show ?thesis
    using assms by (simp add: CMap_inv_def) (simp add: s')
qed

lemma CMap_inv_go:
  assumes inv: "CMap_inv f list s"
  shows "CMap_inv f list (go_step (CMap_body f) i s)"
proof (cases "i < length (spawned s)")
  case False
  with inv show ?thesis by (simp add: go_step_def)
next
  case True
  note i = this
  let ?s' = "go_step (CMap_body f) i s"
  from inv have wgi: "wg_inv (length list) s" and len: "length (shared s) = length list"
    and np: "\<not> panicked s"
    and slots: "\<And>j. j < length (spawned s) \<Longrightarrow>
        (spawned s ! j = Running (j, list ! j) \<or>
        (spawned s ! j = Deferred \<or> spawned s ! j = Exited) \<and> shared s ! j = f (list ! j))"
    by (simp_all add: CMap_inv_def)
  from wgi have wgi': "wg_inv (length list) ?s'" by (rule wg_inv_go)
  from wgi i len have ish: "i < length (shared s)" by (simp add: wg_inv_def)
  show ?thesis
  proof (cases "spawned s ! i")
    case (Running l)
    with slots [OF i] have l: "l = (i, list ! i)" by simp
    have s': "?s' = s\<lparr>spawned := (spawned s)[i := Deferred],
                      shared := (shared s)[i := f (list ! i)]\<rparr>"
      using i Running l ish by (simp add: go_step_def CMap_body_def store_index_def)
    have "(spawned ?s' ! j = Running (j, list ! j) \<or>
        (spawned ?s' ! j = Deferred \<or> spawned ?s' ! j = Exited) \<and> shared ?s' ! j = f (list ! j))" if j: "j < length (spawned ?s')" for j
    proof (cases "j = i")
      case True
      with i ish show ?thesis by (simp add: s')
    next
      case False
      with j slots [of j] show ?thesis by (simp add: s')
    qed
    with wgi' np len show ?thesis
      by (simp add: CMap_inv_def) (simp add: s')
  next
    case Deferred
    from wg_inv_alive_pos [OF wgi i] Deferred have "0 < wg s" by simp
    then have s': "?s' = s\<lparr>spawned := (spawned s)[i := Exited], wg := wg s - 1\<rparr>"
      using i Deferred by (simp add: go_step_def)
    have "(spawned ?s' ! j = Running (j, list ! j) \<or>
        (spawned ?s' ! j = Deferred \<or> spawned ?s' ! j = Exited) \<and> shared ?s' ! j = f (list ! j))" if j: "j < length (spawned ?s')" for j
    proof (cases "j = i")
      case True
      with i slots [OF i] Deferred show ?thesis by (simp add: s')
    next
      case False
      with j slots [of j] show ?thesis by (simp add: s')
    qed
    with wgi' np len show ?thesis
      by (simp add: CMap_inv_def) (simp add: s')
  next
    case Exited
    with i have "?s' = s" by (simp add: go_step_def)
    with inv show ?thesis by simp
  qed
qed

lemma CMap_inv_step:
  "CMap_inv f list s \<Longrightarrow> CMap_inv f list (step (\<lambda>i v. (i, v)) (CMap_body f) list g s)"
  by (cases g) (simp_all add: step_def CMap_inv_spawn CMap_inv_go)

lemma CMap_inv_run:
  "CMap_inv f list s \<Longrightarrow> CMap_inv f list (run (\<lambda>i v. (i, v)) (CMap_body f) list sched s)"
  by (induction sched arbitrary: s) (simp_all add: CMap_inv_step)

lemma CMap_inv_pool: "CMap_inv f list (CMap_pool zero list f sched)"
  unfolding CMap_pool_def by (rule CMap_inv_run [OF CMap_inv_init])

lemma CMap_inv_wait:
  assumes inv: "CMap_inv f list s"
  shows "wait list (\<lambda>r. r) s = Blocked \<or>
         wait list (\<lambda>r. r) s = Returned (map f list)"
proof (cases "length (spawned s) = length list \<and> wg s = 0")
  case False
  with inv show ?thesis by (auto simp: wait_def CMap_inv_def)
next
  case True
  from inv have wgi: "wg_inv (length list) s" by (simp add: CMap_inv_def)
  have "shared s ! i = f (list ! i)" if i: "i < length list" for i
  proof -
    from wg_inv_finished [OF wgi _ _ i] True have "spawned s ! i = Exited" by simp
    with inv i True show ?thesis by (auto simp: CMap_inv_def)
  qed
  with inv have "shared s = map f list"
    by (simp add: list_eq_iff_nth_eq CMap_inv_def)
  with inv True show ?thesis by (simp add: wait_def CMap_inv_def)
qed

lemma CMap_inv_ok: "CMap_inv f list s \<Longrightarrow> pool_ok (length list) s"
  by (simp add: CMap_inv_def pool_ok_def)

lemma CMap_inv_nopanic:
  assumes "CMap_inv f list s" "i < length (spawned s)" "spawned s ! i = Running l"
  shows "CMap_body f l (shared s) \<noteq> Panic"
proof -
  from assms have "l = (i, list ! i)" "i < length (shared s)"
    by (auto simp: CMap_inv_def wg_inv_def)
  then show ?thesis by (simp add: CMap_body_def store_index_def)
qed

lemma CMap_body_Next: "CMap_body f l sh \<noteq> Next l' sh'"
  by (auto simp: CMap_body_def store_index_def split: prod.splits if_splits)

lemma CMap_complete:
  "\<exists>ext. work (\<lambda>l. 0) 0 (length list) (CMap_pool zero list f (sched @ ext)) = 0"
proof -
  have "\<exists>ext. work (\<lambda>l. 0) 0 (length list)
          (run (\<lambda>i v. (i, v)) (CMap_body f) list ext (CMap_pool zero list f sched)) = 0"
  proof (rule pool_complete [where I = "CMap_inv f list"])
    show "CMap_inv f list (CMap_pool zero list f sched)" by (rule CMap_inv_pool)
  qed (simp_all add: CMap_inv_step CMap_inv_ok CMap_inv_nopanic CMap_body_Next)
  then show ?thesis by (simp add: CMap_pool_def run_append)
qed

lemma CMap_safe:
  "CMap zero list f sched = Blocked \<or> CMap zero list f sched = Returned (map f list)"
proof (cases "length list = 0")
  case True
  then show ?thesis by (simp add: CMap_unfold)
next
  case False
  with CMap_inv_wait [OF CMap_inv_pool [of f list zero sched]] show ?thesis
    by (simp add: CMap_unfold)
qed

lemma CMap_returns: "\<exists>ext. CMap zero list f (sched @ ext) = Returned (map f list)"
proof -
  from CMap_complete [of list zero f sched] obtain ext where
    ext: "work (\<lambda>l. 0) 0 (length list) (CMap_pool zero list f (sched @ ext)) = 0"
    by blast
  have "pool_ok (length list) (CMap_pool zero list f (sched @ ext))"
    by (rule CMap_inv_ok [OF CMap_inv_pool])
  from work_zero_wait [OF this ext, where res = "\<lambda>result. result"]
  have "CMap zero list f (sched @ ext) \<noteq> Blocked"
    by (simp add: CMap_unfold)
  with CMap_safe [of zero list f "sched @ ext"] show ?thesis by blast
qed

lemmas pool_defs =
  step_def spawn_step_def go_step_def wait_def init_pool_def make_slice_def Let_def

section \<open>The claims\<close>

text \<open>
  C1. For every list and every function \<open>f\<close>, under every schedule of its goroutines
  \<open>CMap\<close> does not panic and, once \<open>wg.Wait()\<close> lets it return, returns the result of
  the sequential \<open>Map\<close>: a list of the length of the input whose \<open>i\<close>-th element is
  \<open>f\<close> of the \<open>i\<close>-th input element. Every schedule can be continued so that the call
  returns. This covers every length, 0 and 1 included.
\<close>

theorem CMap_equals_Map:
  "(CMap zero list f sched = Blocked \<or>
    (\<exists>r. CMap zero list f sched = Returned r \<and> Map zero list f = Some r \<and>
         length r = length list \<and> (\<forall>i<length list. r ! i = f (list ! i)))) \<and>
   (\<exists>ext r. CMap zero list f (sched @ ext) = Returned r \<and> Map zero list f = Some r)"
proof -
  from CMap_safe [of zero list f sched]
  have "CMap zero list f sched = Blocked \<or>
    (\<exists>r. CMap zero list f sched = Returned r \<and> Map zero list f = Some r \<and>
         length r = length list \<and> (\<forall>i<length list. r ! i = f (list ! i)))"
    by (auto simp: Map_map)
  moreover from CMap_returns [of zero list f sched]
  have "\<exists>ext r. CMap zero list f (sched @ ext) = Returned r \<and> Map zero list f = Some r"
    by (auto simp: Map_map)
  ultimately show ?thesis by blast
qed

theorem CMap_equals_Map_witness:
  "CMap 0 [1, 2, 3] square [MainG, MainG, G 1, MainG, G 2, G 0, G 1, G 0, G 2, G 2]
     = Returned [1, 4, 9] \<and>
   Map 0 [1, 2, 3] square = Some [1, 4, 9]"
proof -
  have c: "CMap 0 [1, 2, 3] square [MainG, MainG, G 1, MainG, G 2, G 0, G 1, G 0, G 2, G 2]
             = Returned [1, 4, 9]"
    by (simp add: CMap_unfold CMap_pool_def CMap_body_def store_index_def square_def pool_defs)
  with CMap_equals_Map [of 0 "[1, 2, 3]" square
      "[MainG, MainG, G 1, MainG, G 2, G 0, G 1, G 0, G 2, G 2]"]
  show ?thesis by simp
qed

text \<open>
  C2. The specification requires that, whatever the schedule, the elements \<open>CFilter\<close>
  returns are, as a multiset, those of the sequential \<open>Filter\<close>, none dropped. The
  code drops one: on \<open>[1, 3]\<close> with isOdd, when both goroutines read the header of
  \<open>result\<close> before either assigns it, both store into cell 0 and both assign length 1,
  so that the call returns \<open>[3]\<close>, where \<open>Filter\<close> returns \<open>[1, 3]\<close>.
\<close>

theorem CFilter_drops_element:
  "CFilter 0 [1, 3] isOdd [MainG, MainG, G 0, G 1, G 0, G 0, G 0, G 1, G 1, G 1]
     = Returned [3] \<and>
   Filter [1, 3] isOdd = [1, 3] \<and>
   mset [3 :: int] \<noteq> mset (Filter [1, 3] isOdd)"
proof -
  have "CFilter 0 [1, 3] isOdd [MainG, MainG, G 0, G 1, G 0, G 0, G 0, G 1, G 1, G 1]
     = Returned [3]"
    by (simp add: CFilter_unfold CFilter_pool_def CFilter_body_def elems_def isOdd_def
        signed_modulo_int_def pool_defs)
  moreover have f: "Filter [1, 3] isOdd = [1, 3]"
    by (simp add: Filter_def isOdd_def signed_modulo_int_def)
  moreover have "mset [3 :: int] \<noteq> mset (Filter [1, 3] isOdd)"
    by (simp add: f)
  ultimately show ?thesis by blast
qed

text \<open>
  C3. The specification requires that, for a commutative and associative reducer,
  \<open>CReduce\<close> returns the value of the sequential \<open>Reduce\<close> whatever the schedule. The
  code loses an update: with integer addition, which is commutative and associative, on
  \<open>[1, 2]\<close> from 0, when both goroutines read \<open>acc\<close> before either assigns it, the
  call returns 2, where \<open>Reduce\<close> returns 3.
\<close>

theorem CReduce_loses_update:
  "(\<forall>a b. add a b = add b a) \<and> (\<forall>a b c. add (add a b) c = add a (add b c)) \<and>
   CReduce [1, 2] add 0 [MainG, MainG, G 0, G 1, G 0, G 0, G 1, G 1] = Returned 2 \<and>
   Reduce [1, 2] add 0 = 3"
proof -
  have "CReduce [1, 2] add 0 [MainG, MainG, G 0, G 1, G 0, G 0, G 1, G 1] = Returned 2"
    by (simp add: CReduce_unfold CReduce_pool_def CReduce_body_def add_def pool_defs)
  moreover have "Reduce [1, 2] add 0 = 3"
    by (simp add: Reduce_def add_def)
  ultimately show ?thesis by (simp add: add_def)
qed

text \<open>
  C4. The specification requires that the output container of \<open>CFilter\<close> and the
  accumulator of \<open>CReduce\<close> are accessed under mutual exclusion. The code takes no
  lock: once both goroutines have made their first step, both are inside \<open>append\<close>
  holding the same header of \<open>result\<close>, and both are inside the update of \<open>acc\<close>
  holding a value computed from the same \<open>acc\<close>; neither access is exclusive.
\<close>

theorem no_mutual_exclusion:
  "spawned (CFilter_pool 0 [1, 3] isOdd [MainG, MainG, G 0, G 1])
     = [Running (FStore 1 \<lparr>ptr = 0, len = 0, cap = 2\<rparr>),
        Running (FStore 3 \<lparr>ptr = 0, len = 0, cap = 2\<rparr>)] \<and>
   \<not> exclusive in_append (CFilter_pool 0 [1, 3] isOdd [MainG, MainG, G 0, G 1]) \<and>
   spawned (CReduce_pool [1, 2] add 0 [MainG, MainG, G 0, G 1])
     = [Running (RAssign 1), Running (RAssign 2)] \<and>
   \<not> exclusive in_update (CReduce_pool [1, 2] add 0 [MainG, MainG, G 0, G 1])"
proof -
  have f: "spawned (CFilter_pool 0 [1, 3] isOdd [MainG, MainG, G 0, G 1])
     = [Running (FStore 1 \<lparr>ptr = 0, len = 0, cap = 2\<rparr>),
        Running (FStore 3 \<lparr>ptr = 0, len = 0, cap = 2\<rparr>)]"
    by (simp add: CFilter_pool_def CFilter_body_def isOdd_def signed_modulo_int_def pool_defs)
  have r: "spawned (CReduce_pool [1, 2] add 0 [MainG, MainG, G 0, G 1])
     = [Running (RAssign 1), Running (RAssign 2)]"
    by (simp add: CReduce_pool_def CReduce_body_def add_def pool_defs)
  have "\<not> exclusive in_append (CFilter_pool 0 [1, 3] isOdd [MainG, MainG, G 0, G 1])"
    unfolding exclusive_def f by simp
  moreover
  have "\<not> exclusive in_update (CReduce_pool [1, 2] add 0 [MainG, MainG, G 0, G 1])"
    unfolding exclusive_def r by simp
  ultimately show ?thesis using f r by blast
qed

text \<open>
  C5. On the empty list each concurrent operation returns at its first test, whatever the
  schedule, without entering the concurrent path: \<open>CMap\<close> and \<open>CFilter\<close> return \<open>nil\<close>,
  the empty sequence, and \<open>CReduce\<close> returns the initial value, and the call has set up
  no wait group, no shared result and no goroutine. The empty list is the only input on
  which the call sets up none: on every other list the wait group exists, whatever the
  schedule.
\<close>

theorem empty_input_short_circuit:
  "CMap_call zero [] f sched = (Returned NilSlice, None) \<and>
   CFilter_call zero' [] p sched' = (Returned NilSlice, None) \<and>
   CReduce_call [] reducer initial sched'' = (Returned initial, None) \<and>
   CMap zero [] f sched = Returned [] \<and>
   CFilter zero' [] p sched' = Returned [] \<and>
   CReduce [] reducer initial sched'' = Returned initial \<and>
   (snd (CMap_call zero xs f sched) = None \<longleftrightarrow> xs = []) \<and>
   (snd (CFilter_call zero' ys p sched') = None \<longleftrightarrow> ys = []) \<and>
   (snd (CReduce_call zs reducer initial sched'') = None \<longleftrightarrow> zs = [])"
  by (simp add: CMap_def CFilter_def CReduce_def CMap_call_def CFilter_call_def
      CReduce_call_def)

theorem empty_input_short_circuit_witness:
  "CMap_call (0::int) [] square [MainG, G 0] = (Returned NilSlice, None) \<and>
   CReduce_call [] add 0 [MainG, G 0] = (Returned 0, None) \<and>
   snd (CMap_call (0::int) [2] square []) \<noteq> None \<and>
   snd (CFilter_call (0::int) [2] isOdd []) \<noteq> None \<and>
   snd (CReduce_call [2] add 0 []) \<noteq> None"
  using empty_input_short_circuit [where zero = "0::int" and f = square
      and sched = "[MainG, G 0]" and zero' = "0::int" and p = isOdd and sched' = "[]"
      and reducer = add and initial = 0 and sched'' = "[MainG, G 0]"
      and xs = "[]::int list" and ys = "[2]" and zs = "[2]"]
    empty_input_short_circuit [where zero = "0::int" and f = square
      and sched = "[]" and zero' = "0::int" and p = isOdd and sched' = "[]"
      and reducer = add and initial = 0 and sched'' = "[]"
      and xs = "[2]" and ys = "[2]" and zs = "[2]"]
  by simp

text \<open>
  C6. For every list and every function \<open>f\<close>, the sequential \<open>Map\<close> returns (its indexed
  writes never panic) a list of the same length as the input whose \<open>i\<close>-th element is
  \<open>f\<close> of the \<open>i\<close>-th input element, for every index \<open>i\<close>.
\<close>

theorem Map_pointwise:
  "\<exists>r. Map zero list f = Some r \<and> length r = length list \<and>
       (\<forall>i<length list. r ! i = f (list ! i))"
  by (simp add: Map_map)

theorem Map_pointwise_witness:
  "\<exists>r. Map (0::int) [2, 3, 4] square = Some r \<and> length r = 3 \<and>
       r ! 0 = 4 \<and> r ! 1 = 9 \<and> r ! 2 = 16"
proof -
  from Map_pointwise [of "0::int" "[2, 3, 4]" square] obtain r where
    r: "Map (0::int) [2, 3, 4] square = Some r" "length r = 3"
      "\<forall>i<3. r ! i = square ([2, 3, 4] ! i)"
    by auto
  from r(3) have "r ! 0 = 4" "r ! 1 = 9" "r ! 2 = 16"
    by (simp_all add: square_def)
  with r(1,2) show ?thesis by simp
qed

text \<open>
  C7. \<open>IndexOf\<close> is not the only operation that can fail, and not-found is not its only
  failure: on a slice of interface values, \<open>Contains\<close> and \<open>IndexOf\<close> panic when they
  compare two values of the same dynamic type that is not comparable. On the slice
  holding the one \<open>[]int\<close> value \<open>[1]\<close> and that target, both panic.
\<close>

theorem Contains_can_panic:
  "Contains any_eq [AnySlice [1]] (AnySlice [1]) = None \<and>
   IndexOf any_eq [AnySlice [1]] (AnySlice [1]) = None"
  by (simp add: IndexOf_def)

text \<open>
  C7, as the code has it. \<open>IndexOf\<close> and \<open>Contains\<close> scan the list in order. If the first
  comparison that is not false is true, at index \<open>i\<close>, \<open>IndexOf\<close> returns \<open>i\<close> with the
  \<open>nil\<close> error and \<open>Contains\<close> returns true; on \<open>[1,2,3,4,5]\<close> with target 3 that is
  position 2. If every comparison is false, \<open>IndexOf\<close> returns \<open>-1\<close> and the error
  "element not found", as on \<open>[1,2,3,4,5]\<close> with target 6, and \<open>Contains\<close> returns false.
  If the first comparison that is not false panics, both panic; this cannot happen
  where \<open>==\<close> never panics, as on \<open>int\<close>, and there neither function panics. These are
  all the cases. The other operations cannot fail: \<open>Map\<close> returns, its indexed write
  never panicking; \<open>Filter\<close>, \<open>Reduce\<close> and \<open>ForEach\<close> are the plain filter and folds of
  the list, with no operation that can fail; \<open>CMap\<close> never panics, under any schedule,
  and every schedule can be continued so that it returns.
\<close>

theorem IndexOf_error_path:
  "((\<exists>i<length list. eq (list ! i) target = Some True \<and>
         (\<forall>j<i. eq (list ! j) target = Some False) \<and>
         IndexOf eq list target = Some (int i, None) \<and>
         Contains eq list target = Some True) \<or>
    ((\<forall>v\<in>set list. eq v target = Some False) \<and>
         IndexOf eq list target = Some (- 1, Some (Errorf ''element not found'')) \<and>
         Contains eq list target = Some False) \<or>
    (\<exists>i<length list. eq (list ! i) target = None \<and>
         (\<forall>j<i. eq (list ! j) target = Some False) \<and>
         IndexOf eq list target = None \<and>
         Contains eq list target = None)) \<and>
   IndexOf val_eq list target \<noteq> None \<and>
   Contains val_eq list target \<noteq> None \<and>
   (target \<in> set list \<longrightarrow>
      (\<exists>i<length list. IndexOf val_eq list target = Some (int i, None) \<and> list ! i = target)) \<and>
   (target \<notin> set list \<longrightarrow>
      IndexOf val_eq list target = Some (- 1, Some (Errorf ''element not found''))) \<and>
   IndexOf val_eq [1, 2, 3, 4, 5 :: int] 3 = Some (2, None) \<and>
   IndexOf val_eq [1, 2, 3, 4, 5 :: int] 6 = Some (- 1, Some (Errorf ''element not found'')) \<and>
   Map zero xs f = Some (map f xs) \<and>
   Filter ys p = filter p ys \<and>
   Reduce zs reducer initial = foldl reducer initial zs \<and>
   ForEach ws g st = fold g ws st \<and>
   CMap zero xs f sched \<noteq> Panicked \<and>
   (\<exists>ext r. CMap zero xs f (sched @ ext) = Returned r)"
proof -
  have scan: "(\<exists>i<length list. eq (list ! i) target = Some True \<and>
         (\<forall>j<i. eq (list ! j) target = Some False) \<and>
         IndexOf eq list target = Some (int i, None) \<and>
         Contains eq list target = Some True) \<or>
    ((\<forall>v\<in>set list. eq v target = Some False) \<and>
         IndexOf eq list target = Some (- 1, Some (Errorf ''element not found'')) \<and>
         Contains eq list target = Some False) \<or>
    (\<exists>i<length list. eq (list ! i) target = None \<and>
         (\<forall>j<i. eq (list ! j) target = Some False) \<and>
         IndexOf eq list target = None \<and>
         Contains eq list target = None)"
    using scan_cases [of list eq target]
  proof (elim disjE exE conjE)
    fix j
    assume j: "j < length list" "eq (list ! j) target = Some True"
      "\<forall>m<j. eq (list ! m) target = Some False"
    with IndexOf_match [where eq = eq, OF j] Contains_match [where eq = eq, OF j] show ?thesis by blast
  next
    fix j
    assume j: "j < length list" "eq (list ! j) target = None"
      "\<forall>m<j. eq (list ! m) target = Some False"
    with IndexOf_panic [where eq = eq, OF j] Contains_panic [where eq = eq, OF j] show ?thesis by blast
  next
    assume a: "\<forall>v\<in>set list. eq v target = Some False"
    with IndexOf_absent [where eq = eq, OF a] Contains_absent [where eq = eq, OF a] show ?thesis by blast
  qed
  have present: "\<exists>i<length list. IndexOf val_eq list target = Some (int i, None) \<and>
      Contains val_eq list target = Some True \<and> list ! i = target"
    if "target \<in> set list"
  proof -
    from val_eq_first [OF that] obtain j where
      j: "j < length list" "list ! j = target" "val_eq (list ! j) target = Some True"
        "\<forall>m<j. val_eq (list ! m) target = Some False"
      by blast
    from IndexOf_match [where eq = val_eq, OF j(1,3,4)] Contains_match [where eq = val_eq, OF j(1,3,4)] j(1,2)
    show ?thesis by blast
  qed
  have absent: "IndexOf val_eq list target = Some (- 1, Some (Errorf ''element not found'')) \<and>
      Contains val_eq list target = Some False"
    if "target \<notin> set list"
    using IndexOf_absent [where eq = val_eq, OF val_eq_absent [OF that]]
      Contains_absent [where eq = val_eq, OF val_eq_absent [OF that]]
    by simp
  have total: "IndexOf val_eq list target \<noteq> None \<and> Contains val_eq list target \<noteq> None"
    using present absent by (cases "target \<in> set list") auto
  have "target \<in> set list \<longrightarrow>
      (\<exists>i<length list. IndexOf val_eq list target = Some (int i, None) \<and> list ! i = target)"
    using present by blast
  moreover have "target \<notin> set list \<longrightarrow>
      IndexOf val_eq list target = Some (- 1, Some (Errorf ''element not found''))"
    using absent by blast
  moreover have "IndexOf val_eq [1, 2, 3, 4, 5 :: int] 3 = Some (2, None)"
    by (simp add: IndexOf_def val_eq_def)
  moreover have
    "IndexOf val_eq [1, 2, 3, 4, 5 :: int] 6 = Some (- 1, Some (Errorf ''element not found''))"
    by (simp add: IndexOf_def val_eq_def)
  moreover have "Map zero xs f = Some (map f xs)"
    by (rule Map_map)
  moreover have "Filter ys p = filter p ys"
    by (rule Filter_filter)
  moreover have "Reduce zs reducer initial = foldl reducer initial zs"
    by (rule Reduce_foldl)
  moreover have "ForEach ws g st = fold g ws st"
    by (rule ForEach_fold)
  moreover have "CMap zero xs f sched \<noteq> Panicked"
    using CMap_safe [of zero xs f sched] by auto
  moreover have "\<exists>ext r. CMap zero xs f (sched @ ext) = Returned r"
    using CMap_returns [of zero xs f sched] by blast
  ultimately show ?thesis using scan total by blast
qed

theorem IndexOf_error_path_witness:
  "(7::int) \<in> set [5, 7, 9] \<and> (8::int) \<notin> set [5, 7, 9] \<and>
   (\<exists>i<length [5, 7, 9 :: int]. IndexOf val_eq [5, 7, 9 :: int] 7 = Some (int i, None) \<and>
       [5, 7, 9 :: int] ! i = 7) \<and>
   IndexOf val_eq [5, 7, 9 :: int] 8 = Some (- 1, Some (Errorf ''element not found'')) \<and>
   IndexOf any_eq [AnyInt 5, AnySlice [1], AnyInt 7] (AnyInt 7) = Some (2, None) \<and>
   IndexOf any_eq [AnySlice [1]] (AnyInt 7) = Some (- 1, Some (Errorf ''element not found'')) \<and>
   IndexOf any_eq [AnyInt 5, AnySlice [1], AnyInt 7] (AnySlice [2]) = None"
proof -
  have "IndexOf any_eq [AnyInt 5, AnySlice [1], AnyInt 7] (AnyInt 7) = Some (2, None)"
    "IndexOf any_eq [AnySlice [1]] (AnyInt 7) = Some (- 1, Some (Errorf ''element not found''))"
    "IndexOf any_eq [AnyInt 5, AnySlice [1], AnyInt 7] (AnySlice [2]) = None"
    by (simp_all add: IndexOf_def)
  with IndexOf_error_path [where target = "7::int" and list = "[5, 7, 9]" and eq = val_eq
      and zero = "0::int" and xs = "[]::int list" and f = id and sched = "[]"
      and ys = "[]::int list" and p = "\<lambda>x. True" and zs = "[]::int list" and reducer = add
      and initial = 0 and ws = "[]::int list" and g = "\<lambda>x s. s" and st = "0::int"]
    IndexOf_error_path [where target = "8::int" and list = "[5, 7, 9]" and eq = val_eq
      and zero = "0::int" and xs = "[]::int list" and f = id and sched = "[]"
      and ys = "[]::int list" and p = "\<lambda>x. True" and zs = "[]::int list" and reducer = add
      and initial = 0 and ws = "[]::int list" and g = "\<lambda>x s. s" and st = "0::int"]
  show ?thesis by simp
qed

text \<open>
  C8. The example scenario: \<open>Map\<close> of \<open>[1,2,3,4,5]\<close> with square is \<open>[1,4,9,16,25]\<close>;
  \<open>Filter\<close> of \<open>[1,2,3,4,6]\<close> with isOdd is \<open>[1,3]\<close>; \<open>Reduce\<close> of \<open>[1,2,3,4,5]\<close> with
  sum from 0 is 15; \<open>Contains\<close> on \<open>[1,2,3,4,5]\<close> returns true for 3 and false for 6.
\<close>

theorem example_scenario:
  "Map 0 [1, 2, 3, 4, 5] square = Some [1, 4, 9, 16, 25] \<and>
   Filter [1, 2, 3, 4, 6] isOdd = [1, 3] \<and>
   Reduce [1, 2, 3, 4, 5] add 0 = 15 \<and>
   Contains val_eq [1, 2, 3, 4, 5 :: int] 3 = Some True \<and>
   Contains val_eq [1, 2, 3, 4, 5 :: int] 6 = Some False"
proof -
  have "Map 0 [1, 2, 3, 4, 5] square = Some [1, 4, 9, 16, 25]"
    by (simp add: Map_def make_slice_def store_index_def square_def)
  moreover have "Filter [1, 2, 3, 4, 6] isOdd = [1, 3]"
    by (simp add: Filter_def isOdd_def signed_modulo_int_def)
  moreover have "Reduce [1, 2, 3, 4, 5] add 0 = 15"
    by (simp add: Reduce_def add_def)
  moreover have "Contains val_eq [1, 2, 3, 4, 5 :: int] 3 = Some True"
    by (simp add: val_eq_def)
  moreover have "Contains val_eq [1, 2, 3, 4, 5 :: int] 6 = Some False"
    by (simp add: val_eq_def)
  ultimately show ?thesis by blast
qed

text \<open>
  C9. For every list and target, and whatever \<open>==\<close> does on the element type,
  \<open>Contains\<close> returns true exactly when \<open>IndexOf\<close> returns the \<open>nil\<close> error, it returns
  false exactly when \<open>IndexOf\<close> returns an error, and it panics exactly when \<open>IndexOf\<close>
  panics; and when \<open>IndexOf\<close> returns index \<open>i\<close> with the \<open>nil\<close> error, \<open>i\<close> is a
  position of the list and the element there equals the target under \<open>==\<close>, which
  where \<open>==\<close> is equality of values says that it is the target.
\<close>

theorem Contains_iff_IndexOf:
  "(Contains eq list target = Some True \<longleftrightarrow>
      (\<exists>i. IndexOf eq list target = Some (i, None))) \<and>
   (Contains eq list target = Some False \<longleftrightarrow>
      (\<exists>i e. IndexOf eq list target = Some (i, Some e))) \<and>
   (Contains eq list target = None \<longleftrightarrow> IndexOf eq list target = None) \<and>
   (\<forall>i. IndexOf eq list target = Some (i, None) \<longrightarrow>
      0 \<le> i \<and> nat i < length list \<and> eq (list ! nat i) target = Some True) \<and>
   (\<forall>i. IndexOf val_eq list target = Some (i, None) \<longrightarrow>
      0 \<le> i \<and> nat i < length list \<and> list ! nat i = target)"
proof -
  have general: "(Contains eq list target = Some True \<longleftrightarrow>
      (\<exists>i. IndexOf eq list target = Some (i, None))) \<and>
   (Contains eq list target = Some False \<longleftrightarrow>
      (\<exists>i e. IndexOf eq list target = Some (i, Some e))) \<and>
   (Contains eq list target = None \<longleftrightarrow> IndexOf eq list target = None) \<and>
   (\<forall>i. IndexOf eq list target = Some (i, None) \<longrightarrow>
      0 \<le> i \<and> nat i < length list \<and> eq (list ! nat i) target = Some True)"
    for eq :: "'a \<Rightarrow> 'a \<Rightarrow> bool option"
    using scan_cases [of list eq target]
  proof (elim disjE exE conjE)
    fix j
    assume j: "j < length list" "eq (list ! j) target = Some True"
      "\<forall>m<j. eq (list ! m) target = Some False"
    from IndexOf_match [where eq = eq, OF j] Contains_match [where eq = eq, OF j] j(1,2) show ?thesis by simp
  next
    fix j
    assume j: "j < length list" "eq (list ! j) target = None"
      "\<forall>m<j. eq (list ! m) target = Some False"
    from IndexOf_panic [where eq = eq, OF j] Contains_panic [where eq = eq, OF j] show ?thesis by simp
  next
    assume a: "\<forall>v\<in>set list. eq v target = Some False"
    from IndexOf_absent [where eq = eq, OF a] Contains_absent [where eq = eq, OF a] show ?thesis by simp
  qed
  from general [of val_eq]
  have "\<forall>i. IndexOf val_eq list target = Some (i, None) \<longrightarrow>
      0 \<le> i \<and> nat i < length list \<and> list ! nat i = target"
    by (simp add: val_eq_def)
  with general [of eq] show ?thesis by blast
qed

theorem Contains_iff_IndexOf_witness:
  "Contains val_eq [5, 7, 9 :: int] 7 = Some True \<and>
   IndexOf val_eq [5, 7, 9 :: int] 7 = Some (1, None) \<and>
   [5, 7, 9 :: int] ! nat 1 = 7 \<and>
   Contains val_eq [5, 7, 9 :: int] 8 = Some False \<and>
   Contains any_eq [AnyInt 5, AnySlice [1]] (AnySlice [2]) = None"
proof -
  have i: "IndexOf val_eq [5, 7, 9 :: int] 7 = Some (1, None)"
    by (simp add: IndexOf_def val_eq_def)
  have e: "IndexOf val_eq [5, 7, 9 :: int] 8 = Some (- 1, Some (Errorf ''element not found''))"
    by (simp add: IndexOf_def val_eq_def)
  have n: "IndexOf any_eq [AnyInt 5, AnySlice [1]] (AnySlice [2]) = None"
    by (simp add: IndexOf_def)
  from Contains_iff_IndexOf [of val_eq "[5, 7, 9 :: int]" 7] i
  have "Contains val_eq [5, 7, 9 :: int] 7 = Some True" "[5, 7, 9 :: int] ! nat 1 = 7"
    by simp_all
  moreover from Contains_iff_IndexOf [of val_eq "[5, 7, 9 :: int]" 8] e
  have "Contains val_eq [5, 7, 9 :: int] 8 = Some False"
    by simp
  moreover from Contains_iff_IndexOf [of any_eq "[AnyInt 5, AnySlice [1]]" "AnySlice [2]"] n
  have "Contains any_eq [AnyInt 5, AnySlice [1]] (AnySlice [2]) = None"
    by simp
  ultimately show ?thesis using i by simp
qed

text \<open>
  C10. For every list that contains the target, possibly several times, \<open>IndexOf\<close>
  returns the smallest index at which the list holds the target: the first occurrence.
  This holds where \<open>==\<close> is equality of values; and whatever \<open>==\<close> does, \<open>IndexOf\<close>
  returns the first index at which the comparison is true, the comparisons before it
  being false.
\<close>

theorem IndexOf_first_occurrence:
  "(target \<in> set list \<longrightarrow>
      (\<exists>i<length list. IndexOf val_eq list target = Some (int i, None) \<and> list ! i = target \<and>
         (\<forall>j<i. list ! j \<noteq> target))) \<and>
   (\<forall>i<length list. eq (list ! i) target = Some True \<and>
         (\<forall>j<i. eq (list ! j) target = Some False) \<longrightarrow>
      IndexOf eq list target = Some (int i, None))"
proof -
  have "\<exists>i<length list. IndexOf val_eq list target = Some (int i, None) \<and> list ! i = target \<and>
         (\<forall>j<i. list ! j \<noteq> target)" if "target \<in> set list"
  proof -
    from val_eq_first [OF that] obtain j where
      j: "j < length list" "list ! j = target" "\<forall>m<j. list ! m \<noteq> target"
        "val_eq (list ! j) target = Some True"
        "\<forall>m<j. val_eq (list ! m) target = Some False"
      by blast
    from IndexOf_match [where eq = val_eq, OF j(1,4,5)] j(1-3) show ?thesis by blast
  qed
  moreover have "IndexOf eq list target = Some (int i, None)"
    if "i < length list" "eq (list ! i) target = Some True"
      "\<forall>j<i. eq (list ! j) target = Some False" for i
    using that by (rule IndexOf_match [where eq = eq])
  ultimately show ?thesis by blast
qed

theorem IndexOf_first_occurrence_witness:
  "(5::int) \<in> set [7, 5, 7, 5] \<and> IndexOf val_eq [7, 5, 7, 5 :: int] 5 = Some (1, None) \<and>
   (\<exists>i<length [7, 5, 7, 5 :: int]. IndexOf val_eq [7, 5, 7, 5 :: int] 5 = Some (int i, None) \<and>
      [7, 5, 7, 5 :: int] ! i = 5 \<and> (\<forall>j<i. [7, 5, 7, 5 :: int] ! j \<noteq> 5)) \<and>
   IndexOf any_eq [AnySlice [1], AnyInt 5, AnyInt 5] (AnyInt 5) = Some (1, None)"
proof -
  have h: "(5::int) \<in> set [7, 5, 7, 5]" by simp
  have v: "IndexOf val_eq [7, 5, 7, 5 :: int] 5 = Some (1, None)"
    by (simp add: IndexOf_def val_eq_def)
  from IndexOf_first_occurrence [of "AnyInt 5" "[AnySlice [1], AnyInt 5, AnyInt 5]" any_eq]
  have "IndexOf any_eq [AnySlice [1], AnyInt 5, AnyInt 5] (AnyInt 5) = Some (int 1, None)"
    by (auto simp: less_Suc_eq_0_disj)
  with h v IndexOf_first_occurrence [of "5::int" "[7, 5, 7, 5]" val_eq] show ?thesis by simp
qed

end
